theory Spec2Isabelle
  imports Complex_Main "HOL-Library.Word" "HOL-Library.Monad_Syntax"
begin

unbundle bit_operations_syntax

section \<open>Machine types\<close>

type_synonym u8 = "8 word"
type_synonym u16 = "16 word"
type_synonym c_int = "32 word"

text \<open>
  A C \<open>float\<close> (and the \<open>double\<close> entries of one table) is the real number it
  denotes; infinities and NaN are outside the model. The driver does float arithmetic in
  two places only (\<open>fs * n_ch\<close>, with \<open>n_ch\<close> converted from \<open>int\<close>, and
  \<open>fdsp / fs\<close>); there the exact real result goes through a rounding function \<open>rnd\<close>
  that the operation receives as a parameter, and the theorems hold for every \<open>rnd\<close>.
  Decimal literals of the tables stand for their decimal value.
\<close>

type_synonym c_float = real

section \<open>Bit codec\<close>

text \<open>
  \<^verbatim>\<open>static int rhd_duplicate_bits(uint8_t val)\<close>: the loop runs \<open>i = 0 .. 7\<close>; the body
  reads \<open>tmp = (val >> i) & 1\<close> in \<open>int\<close> and ors \<open>(tmp << 1 | tmp) << 2 * i\<close> into
  \<open>out\<close>. The C \<open>int\<close> is a 32-bit word here; no shift reaches bit 16.
\<close>

definition dup_step :: "u8 \<Rightarrow> nat \<Rightarrow> c_int \<Rightarrow> c_int" where
  "dup_step val i out =
     (let tmp = drop_bit i (ucast val :: c_int) AND 1
      in out OR push_bit (2 * i) (push_bit 1 tmp OR tmp))"

definition rhd_duplicate_bits :: "u8 \<Rightarrow> c_int" where
  "rhd_duplicate_bits val = fold (dup_step val) [0..<8] 0"

text \<open>
  \<^verbatim>\<open>static void rhd_unsplit_u16(uint16_t data, uint8_t *a, uint8_t *b)\<close>: with
  \<open>dataa = data >> 1\<close> and the byte table \<open>shift_arr\<close>, the loop ors
  \<open>(dataa >> i) & shift_arr[i]\<close> into \<open>aa\<close> and \<open>(data >> i) & shift_arr[i]\<close> into
  \<open>bb\<close>, both truncated to 8 bits by the \<open>uint8_t\<close> accumulators. The two output
  parameters become the returned pair \<open>(a, b)\<close>.
\<close>

definition shift_arr :: "u8 list" where
  "shift_arr = [0x1, 0x2, 0x4, 0x8, 0x10, 0x20, 0x40, 0x80]"

definition unsplit_step :: "u16 \<Rightarrow> nat \<Rightarrow> u8 \<times> u8 \<Rightarrow> u8 \<times> u8" where
  "unsplit_step data i ab =
     (let dataa = drop_bit 1 data
      in (fst ab OR ucast (drop_bit i dataa AND ucast (shift_arr ! i)),
          snd ab OR ucast (drop_bit i data AND ucast (shift_arr ! i))))"

definition rhd_unsplit_u16 :: "u16 \<Rightarrow> u8 \<times> u8" where
  "rhd_unsplit_u16 data = fold (unsplit_step data) [0..<8] (0, 0)"

section \<open>Device handle and transport\<close>

text \<open>
  Modelled from the spec: the declarations of \<^verbatim>\<open>rhd_device_t\<close> and \<^verbatim>\<open>rhd_rw_t\<close> are
  in \<^verbatim>\<open>rhd.h\<close>, which is not among the sources. The handle has the two fields that
  \<^verbatim>\<open>rhd.c\<close> uses and the spec's data model lists: the mode flag \<open>double_bits\<close> and the
  injected transport \<open>rw\<close>, called as \<^verbatim>\<open>dev->rw(tx, rx, len)\<close>. The transport is a
  function of the transmit words, the receive buffer as it is on entry, the length and
  the transport's own state \<open>'s\<close> (the chip and the link), and yields the words it stored
  and its next state; its \<open>int\<close> result is dropped by every caller. A C buffer keeps
  its size, so \<open>dev_rw\<close> lays the stored words over the front of the buffer and keeps the
  rest.
\<close>

type_synonym 's rhd_rw_t = "u16 list \<Rightarrow> u16 list \<Rightarrow> nat \<Rightarrow> 's \<Rightarrow> u16 list \<times> 's"

record 's rhd_device_t =
  double_bits :: bool
  rw :: "'s rhd_rw_t"

definition dev_rw :: "'s rhd_device_t \<Rightarrow> u16 list \<Rightarrow> u16 list \<Rightarrow> nat \<Rightarrow> 's \<Rightarrow> u16 list \<times> 's" where
  "dev_rw dev tx rx len s =
     (case rw dev tx rx len s of
        (out, s') \<Rightarrow> (take (length rx) out @ drop (length out) rx, s'))"

text \<open>
  The register addresses are constants of \<^verbatim>\<open>rhd.h\<close> as well: the operations take
  them as a table \<open>regs\<close> of C integer constants.
\<close>

record rhd_regs =
  INTAN_0 :: int
  SUPPLY_SENS_ADC_BUF_BIAS :: int
  MUX_BIAS_CURR :: int
  AMP_BW_SEL_0 :: int
  AMP_BW_SEL_1 :: int
  AMP_BW_SEL_2 :: int
  AMP_BW_SEL_3 :: int
  AMP_BW_SEL_4 :: int
  AMP_BW_SEL_5 :: int
  ADC_OUT_FMT_DPS_OFF_RMVL :: int

section \<open>Command framing\<close>

text \<open>
  \<^verbatim>\<open>uint8_t rhd_send(rhd_device_t *dev, uint16_t reg, uint16_t val)\<close>. Case 0 sends
  the one word \<open>(reg << 8) | (val & 0xFF)\<close>, stored into a \<open>uint16_t\<close>, and returns
  the low byte of the reply. The default case sends \<open>rhd_duplicate_bits(reg)\<close> and
  \<open>rhd_duplicate_bits(val)\<close> (the arguments cut to \<open>uint8_t\<close>, the results to
  \<open>uint16_t\<close>) and returns the \<open>a\<close> stream of the second received word.
\<close>

definition rhd_send :: "'s rhd_device_t \<Rightarrow> u16 \<Rightarrow> u16 \<Rightarrow> 's \<Rightarrow> u8 \<times> 's" where
  "rhd_send dev reg val s =
     (if \<not> double_bits dev then
        (let tx = [push_bit 8 reg OR (val AND 0xFF)];
             rx = [0]
         in case dev_rw dev tx rx 1 s of
              (rx', s') \<Rightarrow> (ucast (rx' ! 0 AND 0xFF), s'))
      else
        (let tx = [ucast (rhd_duplicate_bits (ucast reg)), ucast (rhd_duplicate_bits (ucast val))];
             rx = [0, 0]
         in case dev_rw dev tx rx 2 s of
              (rx', s') \<Rightarrow> (case rhd_unsplit_u16 (rx' ! 1) of (rx_a, rx_b) \<Rightarrow> (rx_a, s'))))"

definition rhd_r :: "'s rhd_device_t \<Rightarrow> u16 \<Rightarrow> 's \<Rightarrow> u8 \<times> 's" where
  "rhd_r dev reg s = rhd_send dev ((reg AND 0x3F) OR 0xC0) 0 s"

definition rhd_w :: "'s rhd_device_t \<Rightarrow> u16 \<Rightarrow> u16 \<Rightarrow> 's \<Rightarrow> u8 \<times> 's" where
  "rhd_w dev reg val s = rhd_send dev ((reg AND 0x3F) OR 0x80) val s"

section \<open>Configuration engine\<close>

text \<open>
  A table read \<open>lut[i]\<close>. Reading past the end of a C array is undefined behaviour:
  the model stops with \<open>None\<close> there.
\<close>

definition lut_at :: "'a list \<Rightarrow> nat \<Rightarrow> 'a option" where
  "lut_at lut i = (if i < length lut then Some (lut ! i) else None)"

text \<open>
  The conversion of a \<open>float\<close> to \<open>int\<close> truncates towards zero; a value outside the
  range of \<open>int\<close> is undefined in C and is not modelled.
\<close>

definition int_of_float :: "c_float \<Rightarrow> int" where
  "int_of_float x = (if 0 \<le> x then \<lfloor>x\<rfloor> else \<lceil>x\<rceil>)"

subsection \<open>Sample rate\<close>

definition msps_lut :: "int list" where
  "msps_lut = [120000, 140000, 175000, 220000, 280000, 350000, 440000, 525000, 700000]"

definition adc_buf_bias_lut :: "int list" where
  "adc_buf_bias_lut = [32, 16, 8, 8, 8, 4, 3, 3, 2]"

definition mux_bias_lut :: "int list" where
  "mux_bias_lut = [40, 40, 40, 32, 26, 18, 16, 7, 4]"

text \<open>
  The loop of \<^verbatim>\<open>rhd_cfg_fs\<close>: \<open>i\<close> is the loop counter, \<open>i_lut\<close> the index kept so
  far; \<open>break\<close> leaves with \<open>i_lut\<close> as it is, otherwise \<open>i_lut = i\<close>.
\<close>

function fs_loop :: "c_float \<Rightarrow> nat \<Rightarrow> nat \<Rightarrow> nat" where
  "fs_loop msps i i_lut =
     (if i < length msps_lut then
        (if msps \<le> real_of_int (msps_lut ! i) then i_lut
         else fs_loop msps (i + 1) i)
      else i_lut)"
  by pat_completeness auto
termination
  by (relation "measure (\<lambda>(msps, i, i_lut). length msps_lut - i)") auto

declare fs_loop.simps [simp del]

definition rhd_cfg_fs ::
  "rhd_regs \<Rightarrow> (real \<Rightarrow> c_float) \<Rightarrow> 's rhd_device_t \<Rightarrow> c_float \<Rightarrow> int \<Rightarrow> 's \<Rightarrow> (int \<times> 's) option" where
  "rhd_cfg_fs regs rnd dev fs n_ch s =
     (let msps = rnd (fs * rnd (real_of_int n_ch));
          i_lut = fs_loop msps 0 0
      in do {
        adc_buf_bias \<leftarrow> lut_at adc_buf_bias_lut i_lut;
        let s1 = snd (rhd_w dev (word_of_int (SUPPLY_SENS_ADC_BUF_BIAS regs))
                       (word_of_int adc_buf_bias) s);
        mux_bias \<leftarrow> lut_at mux_bias_lut i_lut;
        let s2 = snd (rhd_w dev (word_of_int (MUX_BIAS_CURR regs)) (word_of_int mux_bias) s1);
        Some (int_of_float msps, s2)
      })"

subsection \<open>Amplifier bandwidth\<close>

definition fh_lut :: "int list" where
  "fh_lut = [20000, 15000, 10000, 7500, 5000, 3000, 2500, 2000, 1500, 1000, 750, 500,
             300, 250, 200, 150, 100]"

definition rh1_dac1_lut :: "int list" where
  "rh1_dac1_lut = [8, 11, 17, 22, 33, 3, 13, 27, 1, 46, 41, 30, 6, 42, 24, 44, 38]"

definition rh1_dac2_lut :: "int list" where
  "rh1_dac2_lut = [0, 0, 0, 0, 0, 1, 1, 1, 2, 2, 3, 5, 9, 10, 13, 17, 26]"

definition rh2_dac1_lut :: "int list" where
  "rh2_dac1_lut = [4, 8, 16, 23, 37, 13, 25, 44, 23, 30, 36, 43, 2, 5, 7, 8, 5]"

definition rh2_dac2_lut :: "int list" where
  "rh2_dac2_lut = [0, 0, 0, 0, 0, 1, 1, 1, 2, 3, 4, 6, 11, 13, 16, 21, 31]"

definition fl_lut :: "c_float list" where
  "fl_lut = [0.1, 0.25, 0.3, 0.5, 0.75, 1.0, 1.5, 2.0, 2.5, 3.0, 5.0, 7.5, 10, 15, 20, 25,
             30, 50, 75, 100, 150, 200, 250, 300, 500]"

definition rl_dac1_lut :: "int list" where
  "rl_dac1_lut = [16, 56, 1, 35, 49, 44, 9, 8, 42, 20, 40, 18, 5, 62, 54, 48, 44, 34,
                  28, 25, 21, 18, 17, 15, 13]"

text \<open>
  \<^verbatim>\<open>rl_dac2_lut\<close> ends with twelve zeros and \<^verbatim>\<open>rl_dac3_lut\<close> is a one followed by
  twenty-four zeros; the runs are written with \<open>replicate\<close>.
\<close>

definition rl_dac2_lut :: "int list" where
  "rl_dac2_lut = [60, 54, 40, 17, 9, 6, 4, 3, 2, 2, 1, 1, 1] @ replicate 12 0"

definition rl_dac3_lut :: "int list" where
  "rl_dac3_lut = 1 # replicate 24 0"

text \<open>
  The two loops of \<^verbatim>\<open>rhd_cfg_amp_bw\<close>: \<open>break\<close> at the first entry that qualifies,
  otherwise \<open>i_fh++\<close> (\<open>i_fl++\<close>).
\<close>

function fh_loop :: "c_float \<Rightarrow> nat \<Rightarrow> nat \<Rightarrow> nat" where
  "fh_loop fh i i_fh =
     (if i < length fh_lut then
        (if fh \<ge> real_of_int (fh_lut ! i) then i_fh
         else fh_loop fh (i + 1) (i_fh + 1))
      else i_fh)"
  by pat_completeness auto
termination
  by (relation "measure (\<lambda>(fh, i, i_fh). length fh_lut - i)") auto

declare fh_loop.simps [simp del]

function fl_loop :: "c_float \<Rightarrow> nat \<Rightarrow> nat \<Rightarrow> nat" where
  "fl_loop fl i i_fl =
     (if i < length fl_lut then
        (if fl \<le> fl_lut ! i then i_fl
         else fl_loop fl (i + 1) (i_fl + 1))
      else i_fl)"
  by pat_completeness auto
termination
  by (relation "measure (\<lambda>(fl, i, i_fl). length fl_lut - i)") auto

declare fl_loop.simps [simp del]

definition rhd_cfg_amp_bw ::
  "rhd_regs \<Rightarrow> 's rhd_device_t \<Rightarrow> c_float \<Rightarrow> c_float \<Rightarrow> 's \<Rightarrow> (int \<times> 's) option" where
  "rhd_cfg_amp_bw regs dev fl fh s =
     (let i_fh = fh_loop fh 0 0;
          i_fl = fl_loop fl 0 0
      in do {
        rh1_dac1 \<leftarrow> lut_at rh1_dac1_lut i_fh;
        let s0 = snd (rhd_w dev (word_of_int (AMP_BW_SEL_0 regs)) (word_of_int rh1_dac1) s);
        rh1_dac2 \<leftarrow> lut_at rh1_dac2_lut i_fh;
        let s1 = snd (rhd_w dev (word_of_int (AMP_BW_SEL_1 regs)) (word_of_int rh1_dac2) s0);
        rh2_dac1 \<leftarrow> lut_at rh2_dac1_lut i_fh;
        let s2 = snd (rhd_w dev (word_of_int (AMP_BW_SEL_2 regs)) (word_of_int rh2_dac1) s1);
        rh2_dac2 \<leftarrow> lut_at rh2_dac2_lut i_fh;
        let s3 = snd (rhd_w dev (word_of_int (AMP_BW_SEL_3 regs)) (word_of_int rh2_dac2) s2);
        rl_dac1 \<leftarrow> lut_at rl_dac1_lut i_fl;
        let s4 = snd (rhd_w dev (word_of_int (AMP_BW_SEL_4 regs)) (word_of_int rl_dac1) s3);
        rl_dac3 \<leftarrow> lut_at rl_dac3_lut i_fl;
        rl_dac2 \<leftarrow> lut_at rl_dac2_lut i_fl;
        let r = rhd_w dev (word_of_int (AMP_BW_SEL_5 regs))
                  (word_of_int (push_bit 6 rl_dac3 OR rl_dac2)) s4;
        Some (uint (fst r), snd r)
      })"

subsection \<open>DSP offset removal\<close>

definition k_lut :: "real list" where
  "k_lut = [0.99, 0.1103, 0.04579, 0.02125, 0.01027, 0.005053, 0.002506, 0.001248,
            0.0006229, 0.0003112, 0.0001555, 0.00007773, 0.00003886, 0.00001943,
            0.000009714, 0.000004857]"

function dsp_loop :: "c_float \<Rightarrow> nat \<Rightarrow> nat \<Rightarrow> nat" where
  "dsp_loop k i dsp_val =
     (if i < length k_lut then
        (if k > k_lut ! i then dsp_val
         else dsp_loop k (i + 1) (dsp_val + 1))
      else dsp_val)"
  by pat_completeness auto
termination
  by (relation "measure (\<lambda>(k, i, dsp_val). length k_lut - i)") auto

declare dsp_loop.simps [simp del]

text \<open>
  \<^verbatim>\<open>rhd_cfg_dsp\<close> writes \<open>(1 << 7) | (twos_comp << 6) | (abs_mode << 5) | (dsp << 4) |
  dsp_val\<close>, an \<open>int\<close> passed as the \<open>uint16_t\<close> value of \<open>rhd_w\<close>, and returns what
  \<open>rhd_w\<close> returns. \<open>fdsp / fs\<close> with \<open>fs = 0\<close> is an infinity or NaN in C and is
  outside the model.
\<close>

definition rhd_cfg_dsp ::
  "rhd_regs \<Rightarrow> (real \<Rightarrow> c_float) \<Rightarrow> 's rhd_device_t \<Rightarrow> bool \<Rightarrow> bool \<Rightarrow> bool \<Rightarrow> c_float \<Rightarrow> c_float \<Rightarrow> 's
     \<Rightarrow> int \<times> 's" where
  "rhd_cfg_dsp regs rnd dev twos_comp abs_mode dsp fdsp fs s =
     (let dsp_val = (if dsp then dsp_loop (rnd (fdsp / fs)) 0 0 else 0);
          r = rhd_w dev (word_of_int (ADC_OUT_FMT_DPS_OFF_RMVL regs))
                (word_of_int (push_bit 7 1 OR push_bit 6 (of_bool twos_comp)
                   OR push_bit 5 (of_bool abs_mode) OR push_bit 4 (of_bool dsp)
                   OR int dsp_val)) s
      in (uint (fst r), snd r))"

section \<open>Device lifecycle\<close>

text \<open>
  \<^verbatim>\<open>rhd_read_force(dev, reg)\<close>: two reads in a loop whose results are dropped, then
  the read that is returned; the \<open>int\<close> register becomes \<open>rhd_r\<close>'s \<open>uint16_t\<close>.
\<close>

definition rhd_read_force :: "'s rhd_device_t \<Rightarrow> int \<Rightarrow> 's \<Rightarrow> u8 \<times> 's" where
  "rhd_read_force dev reg s =
     rhd_r dev (word_of_int reg) (fold (\<lambda>i s'. snd (rhd_r dev (word_of_int reg) s')) [0..<2] s)"

definition INTAN :: string where
  "INTAN = ''INTAN''"

text \<open>
  The loop of \<^verbatim>\<open>rhd_sanity_check\<close> over \<open>i < sizeof(INTAN) - 1\<close>; the byte read is
  compared with the character as bytes. At a mismatch \<open>ret = i + INTAN_0\<close> and the loop
  is left; \<open>ret\<close> is \<open>0\<close> otherwise.
\<close>

function sanity_loop :: "rhd_regs \<Rightarrow> 's rhd_device_t \<Rightarrow> nat \<Rightarrow> 's \<Rightarrow> int \<times> 's" where
  "sanity_loop regs dev i s =
     (if i < length INTAN then
        (case rhd_read_force dev (INTAN_0 regs + int i) s of
           (letter, s') \<Rightarrow>
             if letter \<noteq> of_char (INTAN ! i) then (int i + INTAN_0 regs, s')
             else sanity_loop regs dev (i + 1) s')
      else (0, s))"
  by pat_completeness auto
termination
  by (relation "measure (\<lambda>(regs, dev, i, s). length INTAN - i)") auto

declare sanity_loop.simps [simp del]

definition rhd_sanity_check :: "rhd_regs \<Rightarrow> 's rhd_device_t \<Rightarrow> 's \<Rightarrow> int \<times> 's" where
  "rhd_sanity_check regs dev s = sanity_loop regs dev 0 s"

section \<open>Channel acquisition\<close>

text \<open>
  \<^verbatim>\<open>uint16_t *rhd2164_sample(rhd_device_t *dev, uint16_t ch, uint16_t *rx)\<close>: the
  caller's buffer \<open>rx\<close> is passed to the transport and, in the default case, its first
  two words are then overwritten with the reassembled values. The model returns the
  buffer.
\<close>

definition rhd2164_sample :: "'s rhd_device_t \<Rightarrow> u16 \<Rightarrow> u16 list \<Rightarrow> 's \<Rightarrow> u16 list \<times> 's" where
  "rhd2164_sample dev ch rx s =
     (if \<not> double_bits dev then
        (let tx = [push_bit 8 ch]
         in dev_rw dev tx rx 1 s)
      else
        (let tx = [ucast (rhd_duplicate_bits (ucast ch)), 0]
         in case dev_rw dev tx rx 2 s of
              (rx1, s') \<Rightarrow>
                (case rhd_unsplit_u16 (rx1 ! 0) of
                   (dat_a1, dat_b1) \<Rightarrow>
                     (case rhd_unsplit_u16 (rx1 ! 1) of
                        (dat_a0, dat_b0) \<Rightarrow>
                          (rx1[0 := push_bit 8 (ucast dat_a1) OR ucast dat_a0 OR 1,
                               1 := push_bit 8 (ucast dat_b1) OR ucast dat_b0 OR 1], s')))))"

text \<open>
  The sweep of \<^verbatim>\<open>rhd2164_sample_all\<close>: \<open>rx\<close> is one two-word buffer, zero at the
  start and reused by every request; \<open>sample_buf\<close> is the caller's frame.
\<close>

function sample_all_loop ::
  "'s rhd_device_t \<Rightarrow> nat \<Rightarrow> u16 list \<Rightarrow> u16 list \<Rightarrow> 's \<Rightarrow> u16 list \<times> 's" where
  "sample_all_loop dev ch rx sample_buf s =
     (if ch < 32 then
        (case rhd2164_sample dev (of_nat ch) rx s of
           (rx', s') \<Rightarrow>
             (let rx_ch = (if ch < 2 then 31 - ch else ch - 2)
              in sample_all_loop dev (ch + 1) rx'
                   (sample_buf[rx_ch := rx' ! 0, rx_ch + 32 := rx' ! 1]) s'))
      else (sample_buf, s))"
  by pat_completeness auto
termination
  by (relation "measure (\<lambda>(dev, ch, rx, sample_buf, s). 32 - ch)") auto

declare sample_all_loop.simps [simp del]

definition rhd2164_sample_all :: "'s rhd_device_t \<Rightarrow> u16 list \<Rightarrow> 's \<Rightarrow> u16 list \<times> 's" where
  "rhd2164_sample_all dev sample_buf s =
     (case sample_all_loop dev 0 [0, 0] sample_buf s of
        (buf, s') \<Rightarrow> (buf[0 := buf ! 0 AND 0xFFFE], s'))"

section \<open>Observing the transport\<close>

text \<open>
  \<open>traced dev\<close> is \<open>dev\<close> with a transport that also appends the transmitted words of
  every transfer to a log carried beside the transport's state. It answers as \<open>dev\<close>
  does, so the log of a run is the sequence of transfers that run performs.
\<close>

definition traced :: "'s rhd_device_t \<Rightarrow> ('s \<times> u16 list list) rhd_device_t" where
  "traced dev =
     \<lparr>double_bits = double_bits dev,
      rw = (\<lambda>tx rx len sl.
              case rw dev tx rx len (fst sl) of
                (out, s') \<Rightarrow> (out, (s', snd sl @ [take len tx])))\<rparr>"

text \<open>
  A transport that stores the same words at every transfer, and one that stores back
  the words it was sent; both without state.
\<close>

definition const_dev :: "bool \<Rightarrow> u16 list \<Rightarrow> unit rhd_device_t" where
  "const_dev dbl ws = \<lparr>double_bits = dbl, rw = (\<lambda>tx rx len s. (ws, s))\<rparr>"

definition loopback :: "bool \<Rightarrow> unit rhd_device_t" where
  "loopback dbl = \<lparr>double_bits = dbl, rw = (\<lambda>tx rx len s. (take len tx, s))\<rparr>"

text \<open>
  The requests of one sweep, one after the other: \<open>sweep dev s n\<close> is the two-word
  buffer and the transport's state after the requests for channels \<open>0 .. n - 1\<close>, so
  the reply to the request for channel \<open>ch\<close> is \<open>fst (sweep dev s (Suc ch))\<close>.
\<close>

primrec sweep :: "'s rhd_device_t \<Rightarrow> 's \<Rightarrow> nat \<Rightarrow> u16 list \<times> 's" where
  "sweep dev s 0 = ([0, 0], s)"
| "sweep dev s (Suc n) =
     rhd2164_sample dev (of_nat n) (fst (sweep dev s n)) (snd (sweep dev s n))"

text \<open>
  The forced reads of the identity registers, one after the other: \<open>ident_state\<close> is the
  transport's state after the first \<open>n\<close> of them and \<open>ident_byte\<close> the byte that the
  read of register \<open>INTAN_0 + i\<close> returns then.
\<close>

primrec ident_state :: "rhd_regs \<Rightarrow> 's rhd_device_t \<Rightarrow> 's \<Rightarrow> nat \<Rightarrow> 's" where
  "ident_state regs dev s 0 = s"
| "ident_state regs dev s (Suc n) =
     snd (rhd_read_force dev (INTAN_0 regs + int n) (ident_state regs dev s n))"

definition ident_byte :: "rhd_regs \<Rightarrow> 's rhd_device_t \<Rightarrow> 's \<Rightarrow> nat \<Rightarrow> u8" where
  "ident_byte regs dev s i =
     fst (rhd_read_force dev (INTAN_0 regs + int i) (ident_state regs dev s i))"

text \<open>
  An instance of the register table for the example runs (the identity registers at
  40, as on the RHD2000 chips; the other addresses play no part in the results), and a
  single-mode chip that answers a command for identity register \<open>40 + i\<close> with the
  \<open>i\<close>-th character of a signature.
\<close>

definition example_regs :: rhd_regs where
  "example_regs =
     \<lparr>INTAN_0 = 40, SUPPLY_SENS_ADC_BUF_BIAS = 1, MUX_BIAS_CURR = 2,
      AMP_BW_SEL_0 = 8, AMP_BW_SEL_1 = 9, AMP_BW_SEL_2 = 10, AMP_BW_SEL_3 = 11,
      AMP_BW_SEL_4 = 12, AMP_BW_SEL_5 = 13, ADC_OUT_FMT_DPS_OFF_RMVL = 4\<rparr>"

definition ident_chip :: "string \<Rightarrow> unit rhd_device_t" where
  "ident_chip sig =
     \<lparr>double_bits = False,
      rw = (\<lambda>tx rx len s.
              let a = unat (take_bit 6 (drop_bit 8 (tx ! 0)))
              in ([if 40 \<le> a \<and> a < 40 + length sig then of_char (sig ! (a - 40)) else 0], s))\<rparr>"

section \<open>Bit codec: properties\<close>

lemma upt8: "[0..<8] = [0, 1, 2, 3, 4, 5, 6, 7]"
  by (simp add: upt_rec)

lemma dup_tmp_bit:
  "bit (drop_bit i (ucast (v :: u8) :: c_int) AND 1) m \<longleftrightarrow> m = 0 \<and> bit v i"
  using bit_imp_le_length [of v i] by (auto simp add: bit_simps bit_1_iff)

lemma dup_pair_bit:
  fixes tmp :: c_int
  assumes "\<And>m. bit tmp m \<longleftrightarrow> m = 0 \<and> b"
  shows "bit (push_bit (2 * i) (push_bit 1 tmp OR tmp)) n \<longleftrightarrow> n < 32 \<and> n div 2 = i \<and> b"
proof -
  have "n div 2 = i \<longleftrightarrow> (2 * i \<le> n \<and> (n - 2 * i = 0 \<or> n - 2 * i = 1))"
    by presburger
  then show ?thesis
    unfolding bit_push_bit_iff bit_or_iff assms by auto
qed

lemma dup_step_bit:
  "bit (dup_step v i out) n \<longleftrightarrow> bit out n \<or> (n < 32 \<and> n div 2 = i \<and> bit v i)"
  unfolding dup_step_def Let_def bit_or_iff
  by (simp only: dup_pair_bit [OF dup_tmp_bit])

lemma dup_fold_bit:
  "bit (fold (dup_step v) [0..<k] out) n \<longleftrightarrow>
     bit out n \<or> (n < 32 \<and> n div 2 < k \<and> bit v (n div 2))"
  by (induction k) (auto simp add: dup_step_bit less_Suc_eq)

lemma dup_bit: "bit (rhd_duplicate_bits v) n \<longleftrightarrow> n < 16 \<and> bit v (n div 2)"
proof -
  have "bit v (n div 2) \<Longrightarrow> n div 2 < 8"
    using bit_imp_le_length [of v "n div 2"] by simp
  then show ?thesis
    unfolding rhd_duplicate_bits_def by (auto simp add: dup_fold_bit)
qed

lemma shift_arr_map: "shift_arr = map (\<lambda>i. push_bit i 1) [0..<8]"
  by (simp add: shift_arr_def upt8)

lemma shift_arr_nth: "i < 8 \<Longrightarrow> (ucast (shift_arr ! i) :: u16) = push_bit i 1"
proof -
  assume i: "i < 8"
  then have "shift_arr ! i = push_bit i 1"
    by (simp add: shift_arr_map del: upt_rec_numeral)
  moreover have "(ucast (push_bit i (1 :: u8)) :: u16) = push_bit i 1"
    using i by (intro bit_word_eqI) (auto simp add: bit_simps)
  ultimately show ?thesis by simp
qed

lemma unsplit_step_fst:
  "i < 8 \<Longrightarrow> bit (fst (unsplit_step w i ab)) n \<longleftrightarrow> bit (fst ab) n \<or> (n = i \<and> bit w (2 * i + 1))"
  by (auto simp add: unsplit_step_def Let_def shift_arr_nth bit_simps mult_2)

lemma unsplit_step_snd:
  "i < 8 \<Longrightarrow> bit (snd (unsplit_step w i ab)) n \<longleftrightarrow> bit (snd ab) n \<or> (n = i \<and> bit w (2 * i))"
  by (auto simp add: unsplit_step_def Let_def shift_arr_nth bit_simps mult_2)

lemma unsplit_fold_fst:
  "k \<le> 8 \<Longrightarrow> bit (fst (fold (unsplit_step w) [0..<k] ab)) n \<longleftrightarrow>
     bit (fst ab) n \<or> (n < k \<and> bit w (2 * n + 1))"
  by (induction k) (auto simp add: unsplit_step_fst less_Suc_eq)

lemma unsplit_fold_snd:
  "k \<le> 8 \<Longrightarrow> bit (snd (fold (unsplit_step w) [0..<k] ab)) n \<longleftrightarrow>
     bit (snd ab) n \<or> (n < k \<and> bit w (2 * n))"
  by (induction k) (auto simp add: unsplit_step_snd less_Suc_eq)

lemma unsplit_a_bit: "bit (fst (rhd_unsplit_u16 w)) n \<longleftrightarrow> n < 8 \<and> bit w (2 * n + 1)"
  unfolding rhd_unsplit_u16_def by (simp add: unsplit_fold_fst)

lemma unsplit_b_bit: "bit (snd (rhd_unsplit_u16 w)) n \<longleftrightarrow> n < 8 \<and> bit w (2 * n)"
  unfolding rhd_unsplit_u16_def by (simp add: unsplit_fold_snd)

lemma unsplit_dup: "rhd_unsplit_u16 (ucast (rhd_duplicate_bits v)) = (v, v)"
proof -
  have a: "fst (rhd_unsplit_u16 (ucast (rhd_duplicate_bits v))) = v"
    by (rule bit_word_eqI) (auto simp add: unsplit_a_bit dup_bit bit_simps)
  have b: "snd (rhd_unsplit_u16 (ucast (rhd_duplicate_bits v))) = v"
    by (rule bit_word_eqI) (auto simp add: unsplit_b_bit dup_bit bit_simps)
  show ?thesis using a b by (simp add: prod_eq_iff)
qed

text \<open>
  C8. For every 8-bit \<open>v\<close>, \<open>rhd_duplicate_bits v\<close> is the 16-bit value whose bits \<open>2i\<close>
  and \<open>2i + 1\<close> both equal bit \<open>i\<close> of \<open>v\<close>: bit \<open>n\<close> of the result is set exactly when
  \<open>n < 16\<close> and bit \<open>n div 2\<close> of \<open>v\<close> is set. In particular \<open>0x00\<close> gives \<open>0x0000\<close>,
  \<open>0xFF\<close> gives \<open>0xFFFF\<close>, \<open>0b01010011\<close> gives \<open>0x330F\<close> and \<open>0b10000000\<close> gives
  \<open>0xC000\<close>.
\<close>

theorem duplicate_bits_pattern:
  "(bit (rhd_duplicate_bits v) (2 * i) \<longleftrightarrow> i < 8 \<and> bit v i)
   \<and> (bit (rhd_duplicate_bits v) (2 * i + 1) \<longleftrightarrow> i < 8 \<and> bit v i)
   \<and> (bit (rhd_duplicate_bits v) n \<longleftrightarrow> n < 16 \<and> bit v (n div 2))
   \<and> rhd_duplicate_bits 0x00 = 0x0000
   \<and> rhd_duplicate_bits 0xFF = 0xFFFF
   \<and> rhd_duplicate_bits 0x53 = 0x330F
   \<and> rhd_duplicate_bits 0x80 = 0xC000"
proof -
  have "bit (rhd_duplicate_bits v) (2 * i) \<longleftrightarrow> i < 8 \<and> bit v i"
    by (simp add: dup_bit)
  moreover have "bit (rhd_duplicate_bits v) (2 * i + 1) \<longleftrightarrow> i < 8 \<and> bit v i"
    by (auto simp add: dup_bit)
  moreover have "rhd_duplicate_bits 0x00 = 0x0000" "rhd_duplicate_bits 0xFF = 0xFFFF"
    "rhd_duplicate_bits 0x53 = 0x330F" "rhd_duplicate_bits 0x80 = 0xC000"
    by (simp_all add: rhd_duplicate_bits_def dup_step_def upt8)
  ultimately show ?thesis by (simp add: dup_bit)
qed

text \<open>
  C1, as the spec states it: for \<open>i\<close> in \<open>0..7\<close>, bit \<open>i\<close> of stream \<open>b\<close> is bit \<open>i\<close> of
  the word and bit \<open>i\<close> of stream \<open>a\<close> is bit \<open>i\<close> of the word shifted right by one. The
  code shifts by \<open>i\<close> before masking with \<open>1 << i\<close>, so both parts fail at the word
  \<open>0b1010\<close> and \<open>i = 1\<close>.
\<close>

theorem unsplit_same_position_counterexample:
  "bit (snd (rhd_unsplit_u16 10)) 1 \<noteq> bit (10 :: u16) 1
   \<and> bit (fst (rhd_unsplit_u16 10)) 1 \<noteq> bit (drop_bit 1 (10 :: u16)) 1"
  by (simp add: rhd_unsplit_u16_def unsplit_step_def shift_arr_def upt8)

text \<open>
  C1, amended: for every 16-bit word \<open>w\<close> and \<open>unsplit(w) = (a, b)\<close>, bit \<open>i\<close> of \<open>b\<close> is
  bit \<open>2i\<close> of \<open>w\<close> and bit \<open>i\<close> of \<open>a\<close> is bit \<open>2i + 1\<close> of \<open>w\<close> (bit \<open>2i\<close> of \<open>w >> 1\<close>),
  for \<open>i\<close> in \<open>0..7\<close>; the streams have no other bits.
\<close>

theorem unsplit_deinterleaves:
  "(bit (snd (rhd_unsplit_u16 w)) i \<longleftrightarrow> i < 8 \<and> bit w (2 * i))
   \<and> (bit (fst (rhd_unsplit_u16 w)) i \<longleftrightarrow> i < 8 \<and> bit w (2 * i + 1))
   \<and> (bit (fst (rhd_unsplit_u16 w)) i \<longleftrightarrow> i < 8 \<and> bit (drop_bit 1 w) (2 * i))"
  by (simp add: unsplit_a_bit unsplit_b_bit bit_simps)

text \<open>
  C10. For every 8-bit \<open>v\<close>, de-interleaving the duplicated word gives \<open>v\<close> on both
  streams: \<open>unsplit(duplicate_bits(v)) = (v, v)\<close>, the \<open>int\<close> result of
  \<open>rhd_duplicate_bits\<close> passed as the \<open>uint16_t\<close> argument.
\<close>

theorem unsplit_duplicate_roundtrip:
  "rhd_unsplit_u16 (ucast (rhd_duplicate_bits v)) = (v, v)"
  by (rule unsplit_dup)

section \<open>Command framing: properties\<close>

lemma and_3F: "reg AND 0x3F = take_bit 6 (reg :: 'a :: len word)"
  by (simp add: take_bit_eq_mask mask_eq_exp_minus_1)

lemma and_FF: "val AND 0xFF = take_bit 8 (val :: 'a :: len word)"
  by (simp add: take_bit_eq_mask mask_eq_exp_minus_1)

lemma or_C0_and_3F: "(reg OR 0xC0) AND 0x3F = (reg AND 0x3F :: u16)"
  by (simp add: bit.conj_disj_distrib2)

lemma ucast_addr: "(ucast (take_bit 6 reg OR x :: u16) :: u8) = take_bit 6 (ucast reg) OR ucast x"
  by (rule bit_word_eqI) (auto simp add: bit_simps)

lemma opcode_field:
  "drop_bit 6 (0xC0 OR take_bit 6 (a :: u8)) = 3" "drop_bit 6 (0x80 OR take_bit 6 (a :: u8)) = 2"
  by (simp_all add: drop_bit_take_bit)

lemma dup_0: "rhd_duplicate_bits 0 = 0"
  by (simp add: rhd_duplicate_bits_def dup_step_def upt8)

lemma traced_double [simp]: "double_bits (traced dev) = double_bits dev"
  by (simp add: traced_def)

lemma dev_rw_traced:
  "dev_rw (traced dev) tx rx len (s, tr) =
     (fst (dev_rw dev tx rx len s), snd (dev_rw dev tx rx len s), tr @ [take len tx])"
  by (simp add: dev_rw_def traced_def split: prod.splits)

lemma rhd_send_traced:
  "rhd_send (traced dev) reg val (s, tr) =
     (fst (rhd_send dev reg val s), snd (rhd_send dev reg val s),
      tr @ [if double_bits dev
            then [ucast (rhd_duplicate_bits (ucast reg)), ucast (rhd_duplicate_bits (ucast val))]
            else [push_bit 8 reg OR (val AND 0xFF)]])"
  by (simp add: rhd_send_def dev_rw_traced Let_def split: prod.splits)

lemma rhd_r_traced:
  "rhd_r (traced dev) reg (s, tr) =
     (fst (rhd_r dev reg s), snd (rhd_r dev reg s),
      tr @ [if double_bits dev
            then [ucast (rhd_duplicate_bits (0xC0 OR take_bit 6 (ucast reg))), 0]
            else [push_bit 8 (0xC0 OR take_bit 6 reg)]])"
  by (simp add: rhd_r_def rhd_send_traced ucast_addr dup_0 and_3F or.commute)

lemma rhd_w_traced:
  "rhd_w (traced dev) reg val (s, tr) =
     (fst (rhd_w dev reg val s), snd (rhd_w dev reg val s),
      tr @ [if double_bits dev
            then [ucast (rhd_duplicate_bits (0x80 OR take_bit 6 (ucast reg))),
                  ucast (rhd_duplicate_bits (ucast val))]
            else [push_bit 8 (0x80 OR take_bit 6 reg) OR take_bit 8 val]])"
  by (simp add: rhd_w_def rhd_send_traced ucast_addr and_3F and_FF or.commute)

lemma rhd_r_or_C0: "rhd_r dev (reg OR 0xC0) s = rhd_r dev reg s"
  by (simp add: rhd_r_def or_C0_and_3F)

lemma rhd_w_or_C0: "rhd_w dev (reg OR 0xC0) val s = rhd_w dev reg val s"
  by (simp add: rhd_w_def or_C0_and_3F)

text \<open>
  C9. For every register value, \<open>rhd_r\<close> transmits the address byte \<open>0xC0 | (reg & 0x3F)\<close>
  and \<open>rhd_w\<close> the address byte \<open>0x80 | (reg & 0x3F)\<close>: the high byte of the one word in
  single mode, the byte that is bit-duplicated into the first word in double mode. The
  top two bits of these bytes are \<open>11\<close> and \<open>10\<close>, whatever the upper bits of \<open>reg\<close>
  are, and \<open>reg | 0xC0\<close> gives the same run as \<open>reg\<close>, for \<open>rhd_r\<close> and for \<open>rhd_w\<close>.
\<close>

theorem read_write_opcode:
  "snd (snd (rhd_r (traced dev) reg (s, []))) =
     [if double_bits dev
      then [ucast (rhd_duplicate_bits (0xC0 OR take_bit 6 (ucast reg))), 0]
      else [push_bit 8 (0xC0 OR take_bit 6 reg)]]
   \<and> snd (snd (rhd_w (traced dev) reg val (s, []))) =
     [if double_bits dev
      then [ucast (rhd_duplicate_bits (0x80 OR take_bit 6 (ucast reg))),
            ucast (rhd_duplicate_bits (ucast val))]
      else [push_bit 8 (0x80 OR take_bit 6 reg) OR take_bit 8 val]]
   \<and> drop_bit 6 (0xC0 OR take_bit 6 (ucast reg :: u8)) = 3
   \<and> drop_bit 6 (0x80 OR take_bit 6 (ucast reg :: u8)) = 2
   \<and> rhd_r dev (reg OR 0xC0) s = rhd_r dev reg s
   \<and> rhd_w dev (reg OR 0xC0) val s = rhd_w dev reg val s
   \<and> rhd_r (traced dev) (reg OR 0xC0) (s, []) = rhd_r (traced dev) reg (s, [])
   \<and> rhd_w (traced dev) (reg OR 0xC0) val (s, []) = rhd_w (traced dev) reg val (s, [])"
proof -
  have "snd (snd (rhd_r (traced dev) reg (s, []))) =
     [if double_bits dev
      then [ucast (rhd_duplicate_bits (0xC0 OR take_bit 6 (ucast reg))), 0]
      else [push_bit 8 (0xC0 OR take_bit 6 reg)]]"
    by (simp add: rhd_r_traced)
  moreover have "snd (snd (rhd_w (traced dev) reg val (s, []))) =
     [if double_bits dev
      then [ucast (rhd_duplicate_bits (0x80 OR take_bit 6 (ucast reg))),
            ucast (rhd_duplicate_bits (ucast val))]
      else [push_bit 8 (0x80 OR take_bit 6 reg) OR take_bit 8 val]]"
    by (simp add: rhd_w_traced)
  ultimately show ?thesis
    by (simp only: opcode_field rhd_r_or_C0 rhd_w_or_C0 simp_thms)
qed

section \<open>Device lifecycle: properties\<close>

lemma upt2: "[0..<2] = [0, 1]"
  by (simp add: upt_rec)

lemma rhd_read_force_unfold:
  "rhd_read_force dev reg s =
     rhd_r dev (word_of_int reg) (snd (rhd_r dev (word_of_int reg) (snd (rhd_r dev (word_of_int reg) s))))"
  by (simp add: rhd_read_force_def upt2)

lemma rhd_read_force_traced:
  "snd (snd (rhd_read_force (traced dev) reg (s, []))) =
     replicate 3
       (if double_bits dev
        then [ucast (rhd_duplicate_bits (0xC0 OR take_bit 6 (ucast (word_of_int reg :: u16)))), 0]
        else [push_bit 8 (0xC0 OR take_bit 6 (word_of_int reg))])"
  by (simp add: rhd_read_force_unfold rhd_r_traced numeral_3_eq_3)

lemma length_INTAN: "length INTAN = 5"
  by (simp add: INTAN_def)

lemma sanity_loop_match:
  "5 - i = n \<Longrightarrow> i \<le> 5 \<Longrightarrow>
   (\<And>j. i \<le> j \<Longrightarrow> j < 5 \<Longrightarrow> ident_byte regs dev s j = of_char (INTAN ! j)) \<Longrightarrow>
   sanity_loop regs dev i (ident_state regs dev s i) = (0, ident_state regs dev s 5)"
proof (induction n arbitrary: i)
  case 0
  then have "i = 5" by simp
  then show ?case by (simp add: sanity_loop.simps [of _ _ 5] length_INTAN)
next
  case (Suc n)
  then have i: "i < 5" by simp
  have m: "ident_byte regs dev s i = of_char (INTAN ! i)" using Suc.prems(3) [of i] i by simp
  have "sanity_loop regs dev (Suc i) (ident_state regs dev s (Suc i)) = (0, ident_state regs dev s 5)"
    using Suc.IH [of "Suc i"] Suc.prems by simp
  then show ?case
    using i m by (subst sanity_loop.simps) (simp add: length_INTAN ident_byte_def case_prod_beta add.commute)
qed

lemma sanity_loop_mismatch:
  "k - i = n \<Longrightarrow> i \<le> k \<Longrightarrow> k < 5 \<Longrightarrow>
   (\<And>j. i \<le> j \<Longrightarrow> j < k \<Longrightarrow> ident_byte regs dev s j = of_char (INTAN ! j)) \<Longrightarrow>
   ident_byte regs dev s k \<noteq> of_char (INTAN ! k) \<Longrightarrow>
   sanity_loop regs dev i (ident_state regs dev s i) =
     (INTAN_0 regs + int k, ident_state regs dev s (Suc k))"
proof (induction n arbitrary: i)
  case 0
  then have "i = k" by simp
  then show ?case
    using 0 by (subst sanity_loop.simps) (simp add: length_INTAN ident_byte_def case_prod_beta add.commute)
next
  case (Suc n)
  then have i: "i < k" by simp
  have m: "ident_byte regs dev s i = of_char (INTAN ! i)" using Suc.prems(4) [of i] i by simp
  have "sanity_loop regs dev (Suc i) (ident_state regs dev s (Suc i)) =
     (INTAN_0 regs + int k, ident_state regs dev s (Suc k))"
    using Suc.IH [of "Suc i"] Suc.prems by simp
  then show ?case
    using i m Suc.prems(3) by (subst sanity_loop.simps) (simp add: length_INTAN ident_byte_def case_prod_beta add.commute)
qed

text \<open>
  C7. \<open>rhd_read_force\<close> reads the same register three times (three equal transfers)
  and returns the result of the third read. \<open>rhd_sanity_check\<close> compares the forced
  reads of the registers \<open>INTAN_0 + 0 .. INTAN_0 + 4\<close>, in order, with the characters of
  \<open>INTAN\<close>: it returns \<open>0\<close> when all five match, and \<open>INTAN_0 + k\<close>, the address of
  the first mismatching register, when the read at offset \<open>k\<close> is the first mismatch
  (the later registers are then not read).
\<close>

theorem sanity_check_result:
  "rhd_read_force dev reg s =
     rhd_r dev (word_of_int reg)
       (snd (rhd_r dev (word_of_int reg) (snd (rhd_r dev (word_of_int reg) s))))
   \<and> snd (snd (rhd_read_force (traced dev) reg (s, []))) =
     replicate 3
       (if double_bits dev
        then [ucast (rhd_duplicate_bits (0xC0 OR take_bit 6 (ucast (word_of_int reg :: u16)))), 0]
        else [push_bit 8 (0xC0 OR take_bit 6 (word_of_int reg))])
   \<and> ((\<forall>i<5. ident_byte regs dev s i = of_char (''INTAN'' ! i)) \<longrightarrow>
        rhd_sanity_check regs dev s = (0, ident_state regs dev s 5))
   \<and> (\<forall>k<5. (\<forall>i<k. ident_byte regs dev s i = of_char (''INTAN'' ! i))
           \<and> ident_byte regs dev s k \<noteq> of_char (''INTAN'' ! k) \<longrightarrow>
        rhd_sanity_check regs dev s = (INTAN_0 regs + int k, ident_state regs dev s (Suc k)))"
proof -
  have a: "(\<forall>i<5. ident_byte regs dev s i = of_char (''INTAN'' ! i)) \<longrightarrow>
        rhd_sanity_check regs dev s = (0, ident_state regs dev s 5)"
    using sanity_loop_match [of 0 5 regs dev s] by (simp add: rhd_sanity_check_def INTAN_def)
  have b: "(\<forall>i<k. ident_byte regs dev s i = of_char (''INTAN'' ! i))
           \<and> ident_byte regs dev s k \<noteq> of_char (''INTAN'' ! k) \<longrightarrow>
        rhd_sanity_check regs dev s = (INTAN_0 regs + int k, ident_state regs dev s (Suc k))"
    if "k < 5" for k
    using that sanity_loop_mismatch [of k 0 k regs dev s] by (simp add: rhd_sanity_check_def INTAN_def)
  have c: "rhd_read_force dev reg s =
     rhd_r dev (word_of_int reg)
       (snd (rhd_r dev (word_of_int reg) (snd (rhd_r dev (word_of_int reg) s))))"
    by (rule rhd_read_force_unfold)
  show ?thesis
    using a b c rhd_read_force_traced [of dev reg s] by blast
qed

lemma all_less_5: "(\<forall>i<5. P i) \<longleftrightarrow> P 0 \<and> P 1 \<and> P 2 \<and> P 3 \<and> P (4::nat)"
  by (auto simp add: numeral_eq_Suc All_less_Suc)

text \<open>
  The theorem at a chip that answers \<open>INTAN\<close>, and at one that answers \<open>XNTAN\<close>, with
  the identity registers at 40: the results are \<open>0\<close> and \<open>40\<close>.
\<close>

theorem sanity_check_witness:
  "rhd_sanity_check example_regs (ident_chip ''INTAN'') () = (0, ())
   \<and> rhd_sanity_check example_regs (ident_chip ''XNTAN'') () = (40, ())"
proof -
  have "\<forall>i<5. ident_byte example_regs (ident_chip ''INTAN'') () i = of_char (''INTAN'' ! i)"
    unfolding all_less_5
    by (simp add: ident_byte_def rhd_read_force_unfold rhd_r_def rhd_send_def dev_rw_def
      ident_chip_def example_regs_def Let_def)
  then have a: "rhd_sanity_check example_regs (ident_chip ''INTAN'') () = (0, ())"
    using sanity_check_result [of "ident_chip ''INTAN''" 0 "()" example_regs] by simp
  have "0 < (5::nat) \<and> (\<forall>i<0. ident_byte example_regs (ident_chip ''XNTAN'') () i = of_char (''INTAN'' ! i))
    \<and> ident_byte example_regs (ident_chip ''XNTAN'') () 0 \<noteq> of_char (''INTAN'' ! 0)"
    by (simp add: ident_byte_def rhd_read_force_unfold rhd_r_def rhd_send_def dev_rw_def
      ident_chip_def example_regs_def Let_def)
  moreover have "\<forall>k<5. (\<forall>i<k. ident_byte example_regs (ident_chip ''XNTAN'') () i = of_char (''INTAN'' ! i))
           \<and> ident_byte example_regs (ident_chip ''XNTAN'') () k \<noteq> of_char (''INTAN'' ! k) \<longrightarrow>
        rhd_sanity_check example_regs (ident_chip ''XNTAN'') ()
          = (INTAN_0 example_regs + int k, ident_state example_regs (ident_chip ''XNTAN'') () (Suc k))"
    using sanity_check_result [of "ident_chip ''XNTAN''" 0 "()" example_regs] by blast
  ultimately have "rhd_sanity_check example_regs (ident_chip ''XNTAN'') ()
          = (INTAN_0 example_regs + int 0, ident_state example_regs (ident_chip ''XNTAN'') () (Suc 0))"
    by blast
  then have b: "rhd_sanity_check example_regs (ident_chip ''XNTAN'') () = (40, ())"
    by (simp add: example_regs_def)
  show ?thesis using a b by simp
qed

section \<open>Configuration engine: properties\<close>

lemma length_luts:
  "length msps_lut = 9" "length adc_buf_bias_lut = 9" "length mux_bias_lut = 9"
  "length fh_lut = 17" "length rh1_dac1_lut = 17" "length rh1_dac2_lut = 17"
  "length rh2_dac1_lut = 17" "length rh2_dac2_lut = 17"
  "length fl_lut = 25" "length rl_dac1_lut = 25" "length rl_dac2_lut = 25"
  "length rl_dac3_lut = 25" "length k_lut = 16"
  by (simp_all add: msps_lut_def adc_buf_bias_lut_def mux_bias_lut_def fh_lut_def
      rh1_dac1_lut_def rh1_dac2_lut_def rh2_dac1_lut_def rh2_dac2_lut_def fl_lut_def
      rl_dac1_lut_def rl_dac2_lut_def rl_dac3_lut_def k_lut_def)

lemma fs_loop_cases:
  "fs_loop msps 0 0 =
     (if msps \<le> 140000 then 0 else if msps \<le> 175000 then 1 else if msps \<le> 220000 then 2
      else if msps \<le> 280000 then 3 else if msps \<le> 350000 then 4
      else if msps \<le> 440000 then 5 else if msps \<le> 525000 then 6
      else if msps \<le> 700000 then 7 else 8)"
  by (simp add: fs_loop.simps msps_lut_def)

lemma all_less_9:
  "(\<forall>j<9. P j) \<longleftrightarrow> P 0 \<and> P 1 \<and> P 2 \<and> P 3 \<and> P 4 \<and> P 5 \<and> P 6 \<and> P 7 \<and> P (8::nat)"
  by (auto simp add: numeral_eq_Suc All_less_Suc)

lemma fs_loop_bound: "fs_loop msps 0 0 < 9"
  by (simp add: fs_loop_cases)

lemma fs_loop_low: "msps \<le> 120000 \<Longrightarrow> fs_loop msps 0 0 = 0"
  by (simp add: fs_loop_cases)

lemma fs_loop_below: "120000 < msps \<Longrightarrow> real_of_int (msps_lut ! fs_loop msps 0 0) < msps"
  by (simp add: fs_loop_cases msps_lut_def)

lemma fs_loop_largest: "\<forall>j<9. real_of_int (msps_lut ! j) < msps \<longrightarrow> j \<le> fs_loop msps 0 0"
  unfolding all_less_9 by (simp add: fs_loop_cases msps_lut_def)

lemma rhd_cfg_fs_eq:
  "rhd_cfg_fs regs rnd dev fs n_ch s =
     Some (int_of_float (rnd (fs * rnd (real_of_int n_ch))),
           snd (rhd_w dev (word_of_int (MUX_BIAS_CURR regs))
                  (word_of_int (mux_bias_lut ! fs_loop (rnd (fs * rnd (real_of_int n_ch))) 0 0))
                  (snd (rhd_w dev (word_of_int (SUPPLY_SENS_ADC_BUF_BIAS regs))
                          (word_of_int (adc_buf_bias_lut ! fs_loop (rnd (fs * rnd (real_of_int n_ch))) 0 0))
                          s))))"
  by (simp add: rhd_cfg_fs_def lut_at_def length_luts fs_loop_bound Let_def)

text \<open>
  C6. \<open>rhd_cfg_fs\<close> computes the target \<open>msps = fs * n_ch\<close> and selects an index of
  the nine-entry throughput table: index \<open>0\<close> when the target is at most the first
  threshold \<open>120000\<close>; otherwise the largest index whose threshold is strictly below the
  target, which is \<open>8\<close> when the target exceeds every threshold. Targets \<open>100000\<close> and
  \<open>120000\<close> select \<open>0\<close>, target \<open>800000\<close> selects \<open>8\<close>. The operation always
  returns, and its transfers are those of two writes: the ADC-buffer-bias code, then the
  mux-bias code, both read at the selected index.
\<close>

theorem cfg_fs_selection:
  "fs_loop msps 0 0 < 9
   \<and> (msps \<le> 120000 \<longrightarrow> fs_loop msps 0 0 = 0)
   \<and> (120000 < msps \<longrightarrow> real_of_int (msps_lut ! fs_loop msps 0 0) < msps)
   \<and> (\<forall>j<9. real_of_int (msps_lut ! j) < msps \<longrightarrow> j \<le> fs_loop msps 0 0)
   \<and> (700000 < msps \<longrightarrow> fs_loop msps 0 0 = 8)
   \<and> fs_loop 100000 0 0 = 0 \<and> fs_loop 120000 0 0 = 0 \<and> fs_loop 800000 0 0 = 8
   \<and> rhd_cfg_fs regs rnd dev fs n_ch s =
       Some (int_of_float (rnd (fs * rnd (real_of_int n_ch))),
             snd (rhd_w dev (word_of_int (MUX_BIAS_CURR regs))
                    (word_of_int (mux_bias_lut ! fs_loop (rnd (fs * rnd (real_of_int n_ch))) 0 0))
                    (snd (rhd_w dev (word_of_int (SUPPLY_SENS_ADC_BUF_BIAS regs))
                      (word_of_int (adc_buf_bias_lut ! fs_loop (rnd (fs * rnd (real_of_int n_ch))) 0 0))
                      s))))
   \<and> map_option (\<lambda>r. snd (snd r)) (rhd_cfg_fs regs rnd (traced dev) fs n_ch (s, [])) =
       Some (snd (snd (rhd_w (traced dev) (word_of_int (SUPPLY_SENS_ADC_BUF_BIAS regs))
                         (word_of_int (adc_buf_bias_lut ! fs_loop (rnd (fs * rnd (real_of_int n_ch))) 0 0))
                         (s, [])))
             @ snd (snd (rhd_w (traced dev) (word_of_int (MUX_BIAS_CURR regs))
                      (word_of_int (mux_bias_lut ! fs_loop (rnd (fs * rnd (real_of_int n_ch))) 0 0))
                      (snd (rhd_w dev (word_of_int (SUPPLY_SENS_ADC_BUF_BIAS regs))
                         (word_of_int (adc_buf_bias_lut ! fs_loop (rnd (fs * rnd (real_of_int n_ch))) 0 0))
                         s), []))))
   \<and> map_option (\<lambda>r. length (snd (snd r))) (rhd_cfg_fs regs rnd (traced dev) fs n_ch (s, []))
       = Some 2"
proof -
  have v: "fs_loop 100000 0 0 = 0" "fs_loop 120000 0 0 = 0" "fs_loop 800000 0 0 = 8"
    "700000 < msps \<longrightarrow> fs_loop msps 0 0 = 8"
    by (simp_all add: fs_loop_cases)
  have t: "map_option (\<lambda>r. snd (snd r)) (rhd_cfg_fs regs rnd (traced dev) fs n_ch (s, [])) =
       Some (snd (snd (rhd_w (traced dev) (word_of_int (SUPPLY_SENS_ADC_BUF_BIAS regs))
                         (word_of_int (adc_buf_bias_lut ! fs_loop (rnd (fs * rnd (real_of_int n_ch))) 0 0))
                         (s, [])))
             @ snd (snd (rhd_w (traced dev) (word_of_int (MUX_BIAS_CURR regs))
                      (word_of_int (mux_bias_lut ! fs_loop (rnd (fs * rnd (real_of_int n_ch))) 0 0))
                      (snd (rhd_w dev (word_of_int (SUPPLY_SENS_ADC_BUF_BIAS regs))
                         (word_of_int (adc_buf_bias_lut ! fs_loop (rnd (fs * rnd (real_of_int n_ch))) 0 0))
                         s), []))))"
    by (simp add: rhd_cfg_fs_eq rhd_w_traced)
  have n: "map_option (\<lambda>r. length (snd (snd r))) (rhd_cfg_fs regs rnd (traced dev) fs n_ch (s, []))
       = Some 2"
    by (simp add: rhd_cfg_fs_eq rhd_w_traced)
  show ?thesis
    using v t n fs_loop_bound [of msps] fs_loop_low [of msps] fs_loop_below [of msps]
      fs_loop_largest [of msps] rhd_cfg_fs_eq [of regs rnd dev fs n_ch s]
    by blast
qed

text \<open>
  The theorem at \<open>fs = 4687.5\<close> and 32 channels, target \<open>150000\<close>: the index is \<open>1\<close>
  and the two words sent in single mode carry the codes \<open>16\<close> and \<open>40\<close>.
\<close>

theorem cfg_fs_selection_witness:
  "(120000 :: real) < 150000
   \<and> real_of_int (msps_lut ! fs_loop 150000 0 0) < 150000
   \<and> real_of_int (msps_lut ! 1) < 150000 \<and> 1 \<le> fs_loop 150000 0 0
   \<and> fs_loop 150000 0 0 = 1
   \<and> rhd_cfg_fs example_regs (\<lambda>x. x) (loopback False) 4687.5 32 () = Some (150000, ())
   \<and> map_option (\<lambda>r. snd (snd r))
        (rhd_cfg_fs example_regs (\<lambda>x. x) (traced (loopback False)) 4687.5 32 ((), []))
       = Some [[0x8110], [0x8228]]"
proof -
  note t = cfg_fs_selection [of 150000 example_regs "\<lambda>x. x" "loopback False" "4687.5" 32 "()"]
  have a: "real_of_int (msps_lut ! fs_loop 150000 0 0) < 150000"
    using t by simp
  have "\<forall>j<9. real_of_int (msps_lut ! j) < 150000 \<longrightarrow> j \<le> fs_loop 150000 0 0"
    using t by blast
  then have "real_of_int (msps_lut ! 1) < 150000 \<longrightarrow> 1 \<le> fs_loop 150000 0 0"
    by simp
  then have b: "real_of_int (msps_lut ! 1) < 150000 \<and> 1 \<le> fs_loop 150000 0 0"
    by (simp add: msps_lut_def)
  have i: "fs_loop 150000 0 0 = 1"
    by (simp add: fs_loop_cases)
  have m: "(4687.5 :: real) * real_of_int 32 = 150000"
    by simp
  have c: "rhd_cfg_fs example_regs (\<lambda>x. x) (loopback False) 4687.5 32 () = Some (150000, ())"
    using t unfolding m by (simp add: int_of_float_def)
  have d: "map_option (\<lambda>r. snd (snd r))
        (rhd_cfg_fs example_regs (\<lambda>x. x) (traced (loopback False)) 4687.5 32 ((), []))
       = Some [[0x8110], [0x8228]]"
    using t unfolding m i
    by (simp add: rhd_w_traced example_regs_def loopback_def adc_buf_bias_lut_def mux_bias_lut_def)
  show ?thesis using a b i c d by simp
qed

lemma fh_loop_cases:
  "fh_loop fh 0 0 =
     (if fh \<ge> 20000 then 0 else if fh \<ge> 15000 then 1
       else if fh \<ge> 10000 then 2 else if fh \<ge> 7500 then 3
       else if fh \<ge> 5000 then 4 else if fh \<ge> 3000 then 5
       else if fh \<ge> 2500 then 6 else if fh \<ge> 2000 then 7
       else if fh \<ge> 1500 then 8 else if fh \<ge> 1000 then 9
       else if fh \<ge> 750 then 10 else if fh \<ge> 500 then 11
       else if fh \<ge> 300 then 12 else if fh \<ge> 250 then 13
       else if fh \<ge> 200 then 14 else if fh \<ge> 150 then 15
       else if fh \<ge> 100 then 16 else 17)"
  by (simp add: fh_loop.simps fh_lut_def)

lemma fl_loop_cases:
  "fl_loop fl 0 0 =
     (if fl \<le> 0.1 then 0 else if fl \<le> 0.25 then 1 else if fl \<le> 0.3 then 2
       else if fl \<le> 0.5 then 3 else if fl \<le> 0.75 then 4
       else if fl \<le> 1.0 then 5 else if fl \<le> 1.5 then 6
       else if fl \<le> 2.0 then 7 else if fl \<le> 2.5 then 8
       else if fl \<le> 3.0 then 9 else if fl \<le> 5.0 then 10
       else if fl \<le> 7.5 then 11 else if fl \<le> 10 then 12
       else if fl \<le> 15 then 13 else if fl \<le> 20 then 14
       else if fl \<le> 25 then 15 else if fl \<le> 30 then 16
       else if fl \<le> 50 then 17 else if fl \<le> 75 then 18
       else if fl \<le> 100 then 19 else if fl \<le> 150 then 20
       else if fl \<le> 200 then 21 else if fl \<le> 250 then 22
       else if fl \<le> 300 then 23 else if fl \<le> 500 then 24 else 25)"
  by (simp add: fl_loop.simps fl_lut_def)

lemma dsp_loop_cases:
  "dsp_loop k 0 0 =
     (if k > 0.99 then 0 else if k > 0.1103 then 1 else if k > 0.04579 then 2
       else if k > 0.02125 then 3 else if k > 0.01027 then 4
       else if k > 0.005053 then 5 else if k > 0.002506 then 6
       else if k > 0.001248 then 7 else if k > 0.0006229 then 8
       else if k > 0.0003112 then 9 else if k > 0.0001555 then 10
       else if k > 0.00007773 then 11 else if k > 0.00003886 then 12
       else if k > 0.00001943 then 13 else if k > 0.000009714 then 14
       else if k > 0.000004857 then 15 else 16)"
  by (simp add: dsp_loop.simps k_lut_def)

text \<open>
  C2 says that the high-cutoff and low-cutoff selections fall back to the last table
  index (16 and 24) when no entry qualifies. The loops count with \<open>i_fh++\<close> and
  \<open>i_fl++\<close> and leave the counter at the table's length: \<open>fh = 90\<close> gives index 17 of
  tables of 17 entries and \<open>fl = 600\<close> gives index 25 of tables of 25 entries, so the
  next table read is past the end. That happens exactly when \<open>fh < 100\<close> or
  \<open>500 < fl\<close>; \<open>fh = 20000\<close> and \<open>fl = 0.1\<close> select index 0.
\<close>

theorem cfg_amp_bw_index_past_table:
  "fh_loop 90 0 0 = 17 \<and> length fh_lut = 17 \<and> length rh1_dac1_lut = 17
   \<and> fl_loop 600 0 0 = 25 \<and> length fl_lut = 25 \<and> length rl_dac1_lut = 25
   \<and> rhd_cfg_amp_bw regs dev 1 90 s = None
   \<and> rhd_cfg_amp_bw regs dev 600 20000 s = None
   \<and> (fh_loop fh 0 0 = 17 \<longleftrightarrow> fh < 100)
   \<and> (fl_loop fl 0 0 = 25 \<longleftrightarrow> 500 < fl)
   \<and> (rhd_cfg_amp_bw regs dev fl fh s = None \<longleftrightarrow> fh < 100 \<or> 500 < fl)
   \<and> fh_loop 20000 0 0 = 0 \<and> fl_loop 0.1 0 0 = 0"
proof -
  have a: "fh_loop fh 0 0 = 17 \<longleftrightarrow> fh < 100" "fh_loop fh 0 0 \<le> 17" for fh
    by (simp_all add: fh_loop_cases)
  have b: "fl_loop fl 0 0 = 25 \<longleftrightarrow> 500 < fl" "fl_loop fl 0 0 \<le> 25" for fl
    by (simp_all add: fl_loop_cases)
  have c: "rhd_cfg_amp_bw regs dev fl fh s = None \<longleftrightarrow> fh_loop fh 0 0 = 17 \<or> fl_loop fl 0 0 = 25"
    for fl fh
    using a(2) [of fh] b(2) [of fl]
    by (auto simp add: rhd_cfg_amp_bw_def lut_at_def length_luts Let_def)
  have d: "rhd_cfg_amp_bw regs dev 1 90 s = None" "rhd_cfg_amp_bw regs dev 600 20000 s = None"
    unfolding c by (simp_all add: a b)
  have e: "fh_loop 20000 0 0 = 0" "fl_loop 0.1 0 0 = 0"
    by (simp_all add: fh_loop_cases fl_loop_cases)
  show ?thesis
    using d e by (simp add: a b c length_luts)
qed

lemma dsp_byte:
  "(word_of_int (push_bit 7 1 OR push_bit 6 (of_bool True) OR push_bit 5 (of_bool False)
             OR push_bit 4 (of_bool True) OR int 16) :: u16) = 0xD0"
  "(word_of_int (push_bit 7 1 OR push_bit 6 (of_bool True) OR push_bit 5 (of_bool False)
             OR push_bit 4 (of_bool True) OR int 0) :: u16) = 0xD0"
  by simp_all

lemma rhd_cfg_dsp_at_0:
  "rhd_cfg_dsp regs (\<lambda>x. x) dev True False True 0 1000 s
      = (uint (fst (rhd_w dev (word_of_int (ADC_OUT_FMT_DPS_OFF_RMVL regs)) 0xD0 s)),
         snd (rhd_w dev (word_of_int (ADC_OUT_FMT_DPS_OFF_RMVL regs)) 0xD0 s))"
proof -
  have "dsp_loop (0 / 1000) 0 0 = 16" by (simp add: dsp_loop_cases)
  then show ?thesis
    unfolding rhd_cfg_dsp_def Let_def by (simp only: dsp_byte if_True)
qed

lemma rhd_cfg_dsp_at_1:
  "rhd_cfg_dsp regs (\<lambda>x. x) dev True False True 1000 1000 s
      = (uint (fst (rhd_w dev (word_of_int (ADC_OUT_FMT_DPS_OFF_RMVL regs)) 0xD0 s)),
         snd (rhd_w dev (word_of_int (ADC_OUT_FMT_DPS_OFF_RMVL regs)) 0xD0 s))"
proof -
  have "dsp_loop (1000 / 1000) 0 0 = 0" by (simp add: dsp_loop_cases)
  then show ?thesis
    unfolding rhd_cfg_dsp_def Let_def by (simp only: dsp_byte if_True)
qed

text \<open>
  C3 asks for a configuration-range error (a clamp or a rejection) when \<open>k = fdsp / fs\<close>
  is below every entry of the table. With DSP enabled, \<open>fdsp = 0\<close> and \<open>fs = 1000\<close> the
  counter ends at 16, which is bit 4 of the register value, the DSP-enable bit already
  set: the byte written is \<open>0xD0\<close>, the same byte as for \<open>k = 1\<close> (cutoff field 0), and
  the result is that of the write. The counter reaches 16 exactly when
  \<open>k \<le> 0.000004857\<close>.
\<close>

theorem cfg_dsp_counter_overflow:
  "dsp_loop 0 0 0 = 16 \<and> dsp_loop 1 0 0 = 0
   \<and> (dsp_loop k 0 0 = 16 \<longleftrightarrow> k \<le> 0.000004857)
   \<and> rhd_cfg_dsp regs (\<lambda>x. x) dev True False True 0 1000 s
       = rhd_cfg_dsp regs (\<lambda>x. x) dev True False True 1000 1000 s
   \<and> snd (snd (rhd_cfg_dsp regs (\<lambda>x. x) (traced dev) True False True 0 1000 (s, []))) =
       [if double_bits dev
        then [ucast (rhd_duplicate_bits
                (0x80 OR take_bit 6 (ucast (word_of_int (ADC_OUT_FMT_DPS_OFF_RMVL regs) :: u16)))),
              ucast (rhd_duplicate_bits 0xD0)]
        else [push_bit 8 (0x80 OR take_bit 6 (word_of_int (ADC_OUT_FMT_DPS_OFF_RMVL regs))) OR 0xD0]]"
proof -
  have a: "dsp_loop 0 0 0 = 16" "dsp_loop 1 0 0 = 0" "dsp_loop k 0 0 = 16 \<longleftrightarrow> k \<le> 0.000004857"
    by (simp_all add: dsp_loop_cases)
  have b: "rhd_cfg_dsp regs (\<lambda>x. x) dev True False True 0 1000 s
       = rhd_cfg_dsp regs (\<lambda>x. x) dev True False True 1000 1000 s"
    by (simp only: rhd_cfg_dsp_at_0 rhd_cfg_dsp_at_1)
  have c: "snd (snd (rhd_cfg_dsp regs (\<lambda>x. x) (traced dev) True False True 0 1000 (s, []))) =
       [if double_bits dev
        then [ucast (rhd_duplicate_bits
                (0x80 OR take_bit 6 (ucast (word_of_int (ADC_OUT_FMT_DPS_OFF_RMVL regs) :: u16)))),
              ucast (rhd_duplicate_bits 0xD0)]
        else [push_bit 8 (0x80 OR take_bit 6 (word_of_int (ADC_OUT_FMT_DPS_OFF_RMVL regs))) OR 0xD0]]"
    by (simp add: rhd_cfg_dsp_at_0 rhd_w_traced)
  show ?thesis using a b c by blast
qed

section \<open>Channel acquisition: properties\<close>

lemma length_dev_rw: "length (fst (dev_rw dev tx rx len s)) = length rx"
  by (simp add: dev_rw_def case_prod_beta)

lemma length_rhd2164_sample: "length (fst (rhd2164_sample dev ch rx s)) = length rx"
  by (simp add: rhd2164_sample_def Let_def case_prod_beta length_dev_rw)

lemma length_sweep: "length (fst (sweep dev s n)) = 2"
  by (induction n) (simp_all add: length_rhd2164_sample)

declare sweep.simps(2) [simp del]

lemma sample_all_loop_step:
  "ch < 32 \<Longrightarrow>
   sample_all_loop dev ch (fst (sweep dev s ch)) buf (snd (sweep dev s ch)) =
     sample_all_loop dev (Suc ch) (fst (sweep dev s (Suc ch)))
       (buf[(if ch < 2 then 31 - ch else ch - 2) := fst (sweep dev s (Suc ch)) ! 0,
            (if ch < 2 then 31 - ch else ch - 2) + 32 := fst (sweep dev s (Suc ch)) ! 1])
       (snd (sweep dev s (Suc ch)))"
  by (subst sample_all_loop.simps) (simp add: case_prod_beta Let_def sweep.simps(2))

lemma sample_all_loop_inv:
  "32 - ch = n \<Longrightarrow> ch \<le> 32 \<Longrightarrow> 64 \<le> length buf \<Longrightarrow>
   snd (sample_all_loop dev ch (fst (sweep dev s ch)) buf (snd (sweep dev s ch)))
     = snd (sweep dev s 32)
   \<and> length (fst (sample_all_loop dev ch (fst (sweep dev s ch)) buf (snd (sweep dev s ch))))
     = length buf
   \<and> (\<forall>c. ch \<le> c \<and> c < 32 \<longrightarrow>
        fst (sample_all_loop dev ch (fst (sweep dev s ch)) buf (snd (sweep dev s ch)))
          ! (if c < 2 then 31 - c else c - 2) = fst (sweep dev s (Suc c)) ! 0
        \<and> fst (sample_all_loop dev ch (fst (sweep dev s ch)) buf (snd (sweep dev s ch)))
          ! ((if c < 2 then 31 - c else c - 2) + 32) = fst (sweep dev s (Suc c)) ! 1)
   \<and> (\<forall>i. (\<forall>c. ch \<le> c \<and> c < 32 \<longrightarrow>
              i \<noteq> (if c < 2 then 31 - c else c - 2) \<and> i \<noteq> (if c < 2 then 31 - c else c - 2) + 32)
          \<longrightarrow> fst (sample_all_loop dev ch (fst (sweep dev s ch)) buf (snd (sweep dev s ch))) ! i
              = buf ! i)"
proof (induction n arbitrary: ch buf)
  case 0
  then have "ch = 32" by simp
  then show ?case by (auto simp add: sample_all_loop.simps [of _ 32])
next
  case (Suc n)
  then have ch: "ch < 32" by simp
  let ?k = "if ch < 2 then 31 - ch else ch - 2"
  let ?r = "fst (sweep dev s (Suc ch))"
  let ?buf = "buf[?k := ?r ! 0, ?k + 32 := ?r ! 1]"
  let ?L = "sample_all_loop dev (Suc ch) ?r ?buf (snd (sweep dev s (Suc ch)))"
  have step: "sample_all_loop dev ch (fst (sweep dev s ch)) buf (snd (sweep dev s ch)) = ?L"
    using ch by (rule sample_all_loop_step)
  have len: "64 \<le> length ?buf" using Suc.prems by simp
  note IH = Suc.IH [of "Suc ch" ?buf, OF _ _ len]
  have ih: "snd ?L = snd (sweep dev s 32)" "length (fst ?L) = length buf"
    "\<And>c. Suc ch \<le> c \<Longrightarrow> c < 32 \<Longrightarrow>
        fst ?L ! (if c < 2 then 31 - c else c - 2) = fst (sweep dev s (Suc c)) ! 0
        \<and> fst ?L ! ((if c < 2 then 31 - c else c - 2) + 32) = fst (sweep dev s (Suc c)) ! 1"
    "\<And>i. (\<forall>c. Suc ch \<le> c \<and> c < 32 \<longrightarrow>
              i \<noteq> (if c < 2 then 31 - c else c - 2) \<and> i \<noteq> (if c < 2 then 31 - c else c - 2) + 32)
          \<Longrightarrow> fst ?L ! i = ?buf ! i"
    using IH Suc.prems ch by auto
  have k: "?k < 32" using ch by auto
  have a0: "fst ?L ! ?k = ?buf ! ?k"
    by (rule ih(4)) (use ch in auto)
  have a1: "fst ?L ! (?k + 32) = ?buf ! (?k + 32)"
    by (rule ih(4)) (use ch in auto)
  have b0: "?buf ! ?k = ?r ! 0" using k Suc.prems(3) by simp
  have b1: "?buf ! (?k + 32) = ?r ! 1" using k Suc.prems(3) by simp
  have here: "fst ?L ! ?k = ?r ! 0 \<and> fst ?L ! (?k + 32) = ?r ! 1"
    using a0 a1 b0 b1 by simp
  have slots: "fst ?L ! (if c < 2 then 31 - c else c - 2) = fst (sweep dev s (Suc c)) ! 0
        \<and> fst ?L ! ((if c < 2 then 31 - c else c - 2) + 32) = fst (sweep dev s (Suc c)) ! 1"
    if "ch \<le> c" "c < 32" for c
  proof (cases "c = ch")
    case True
    show ?thesis unfolding True by (rule here)
  next
    case False
    then have "Suc ch \<le> c" using that by simp
    then show ?thesis using ih(3) that by blast
  qed
  have frame: "fst ?L ! i = buf ! i"
    if "\<forall>c. ch \<le> c \<and> c < 32 \<longrightarrow>
              i \<noteq> (if c < 2 then 31 - c else c - 2) \<and> i \<noteq> (if c < 2 then 31 - c else c - 2) + 32" for i
  proof -
    have "fst ?L ! i = ?buf ! i"
      by (rule ih(4)) (use that in auto)
    moreover have "i \<noteq> ?k \<and> i \<noteq> ?k + 32" using that ch by (metis le_refl)
    ultimately show ?thesis by simp
  qed
  show ?case
    unfolding step using ih(1,2) slots frame by blast
qed

lemma sweep_0: "sweep dev s 0 = ([0, 0], s)"
  by simp

lemma not_bit0_and_FFFE: "\<not> bit (x AND 0xFFFE :: u16) 0"
  by (simp add: bit_0 even_and_iff)

text \<open>
  C4. \<open>rhd2164_sample_all\<close> issues the requests for channels \<open>0 .. 31\<close> in order. The
  reply to request \<open>0\<close> lands at slot 31 and the reply to request \<open>1\<close> at slot 30; the
  reply to every request \<open>ch \<ge> 2\<close> lands at slot \<open>ch - 2\<close>; the second word of each reply
  lands 32 slots higher. After the sweep bit 0 of slot 0 is cleared, whatever the
  transport returned, so slot 0 holds the reply to request \<open>2\<close> with its lowest bit cleared.
  The frame keeps its length and the slots from 64 on are untouched.
\<close>

theorem sample_all_remap:
  assumes "64 \<le> length sample_buf"
  shows
    "(let out = fst (rhd2164_sample_all dev sample_buf s);
          r = (\<lambda>ch. fst (sweep dev s (Suc ch)))
      in snd (rhd2164_sample_all dev sample_buf s) = snd (sweep dev s 32)
         \<and> length out = length sample_buf
         \<and> out ! 31 = r 0 ! 0 \<and> out ! 63 = r 0 ! 1
         \<and> out ! 30 = r 1 ! 0 \<and> out ! 62 = r 1 ! 1
         \<and> (\<forall>ch. 2 \<le> ch \<and> ch < 32 \<longrightarrow>
               out ! (ch - 2) = (if ch = 2 then r ch ! 0 AND 0xFFFE else r ch ! 0)
               \<and> out ! (ch - 2 + 32) = r ch ! 1)
         \<and> \<not> bit (out ! 0) 0
         \<and> (\<forall>i. 64 \<le> i \<and> i < length sample_buf \<longrightarrow> out ! i = sample_buf ! i))"
proof -
  let ?L = "sample_all_loop dev 0 [0, 0] sample_buf s"
  let ?out = "fst (rhd2164_sample_all dev sample_buf s)"
  note inv = sample_all_loop_inv [OF refl le0 assms, of dev s, unfolded sweep_0 fst_conv snd_conv]
  have st: "snd ?L = snd (sweep dev s 32)" and len: "length (fst ?L) = length sample_buf"
    using inv assms by simp_all
  have slot: "fst ?L ! (if c < 2 then 31 - c else c - 2) = fst (sweep dev s (Suc c)) ! 0
        \<and> fst ?L ! ((if c < 2 then 31 - c else c - 2) + 32) = fst (sweep dev s (Suc c)) ! 1"
    if "c < 32" for c
    using inv assms that by simp
  have frame: "fst ?L ! i = sample_buf ! i" if "64 \<le> i" for i
  proof -
    have "\<forall>c. 0 \<le> c \<and> c < 32 \<longrightarrow>
              i \<noteq> (if c < 2 then 31 - c else c - 2) \<and> i \<noteq> (if c < 2 then 31 - c else c - 2) + 32"
      using that by auto
    then show ?thesis using inv assms by blast
  qed
  have out: "?out = (fst ?L)[0 := fst ?L ! 0 AND 0xFFFE]"
    and st': "snd (rhd2164_sample_all dev sample_buf s) = snd ?L"
    by (simp_all add: rhd2164_sample_all_def case_prod_beta)
  have pos: "0 < length (fst ?L)" unfolding len using assms by linarith
  have o0: "?out ! 0 = fst ?L ! 0 AND 0xFFFE" unfolding out using pos by simp
  have oi: "?out ! i = fst ?L ! i" if "0 < i" for i unfolding out using that by simp
  have c0: "?out ! 31 = fst (sweep dev s (Suc 0)) ! 0 \<and> ?out ! 63 = fst (sweep dev s (Suc 0)) ! 1"
    using slot [of 0] by (simp add: oi)
  have c1: "?out ! 30 = fst (sweep dev s (Suc 1)) ! 0 \<and> ?out ! 62 = fst (sweep dev s (Suc 1)) ! 1"
    using slot [of 1] by (simp add: oi)
  have c2: "?out ! (ch - 2) = (if ch = 2 then fst (sweep dev s (Suc ch)) ! 0 AND 0xFFFE
                               else fst (sweep dev s (Suc ch)) ! 0)
            \<and> ?out ! (ch - 2 + 32) = fst (sweep dev s (Suc ch)) ! 1"
    if "2 \<le> ch" "ch < 32" for ch
  proof (cases "ch = 2")
    case True
    then show ?thesis using slot [of 2] by (simp add: o0 oi)
  next
    case False
    then have "0 < ch - 2" using that by simp
    then show ?thesis using slot [of ch] that False by (simp add: oi)
  qed
  have b: "\<not> bit (?out ! 0) 0" unfolding o0 by (rule not_bit0_and_FFFE)
  have f: "?out ! i = sample_buf ! i" if "64 \<le> i" for i
    using that frame [of i] by (simp add: oi)
  have l: "length ?out = length sample_buf" unfolding out using len by simp
  show ?thesis
    unfolding Let_def using st st' l c0 c1 c2 b f by simp
qed

lemma unsplit_0: "rhd_unsplit_u16 0 = (0, 0)"
  by (simp add: rhd_unsplit_u16_def unsplit_step_def shift_arr_def upt8)

lemma loopback_sample:
  assumes "length rx = 2"
  shows "rhd2164_sample (loopback True) ch rx s =
     ([push_bit 8 (ucast (ucast ch :: u8)) OR 1, push_bit 8 (ucast (ucast ch :: u8)) OR 1], s)"
proof -
  obtain a b where rx: "rx = [a, b]"
    using assms by (cases rx; cases "tl rx") auto
  show ?thesis
    by (simp add: rx rhd2164_sample_def loopback_def dev_rw_def unsplit_dup unsplit_0)
qed

lemma sweep_loopback:
  "fst (sweep (loopback True) s (Suc n)) =
     [push_bit 8 (ucast (ucast (of_nat n :: u16) :: u8)) OR 1,
      push_bit 8 (ucast (ucast (of_nat n :: u16) :: u8)) OR 1]"
  by (simp add: sweep.simps(2) loopback_sample length_sweep)

text \<open>
  The theorem at a double-mode transport that stores back what it was sent, where the
  reply to request \<open>ch\<close> is \<open>(ch << 8) | 1\<close> for both dies, and a frame of 64 words
  \<open>0xFFFF\<close>.
\<close>

theorem sample_all_remap_witness:
  "64 \<le> length (replicate 64 (0xFFFF :: u16))
   \<and> fst (rhd2164_sample_all (loopback True) (replicate 64 0xFFFF) ()) ! 31 = 0x0001
   \<and> fst (rhd2164_sample_all (loopback True) (replicate 64 0xFFFF) ()) ! 63 = 0x0001
   \<and> fst (rhd2164_sample_all (loopback True) (replicate 64 0xFFFF) ()) ! 30 = 0x0101
   \<and> fst (rhd2164_sample_all (loopback True) (replicate 64 0xFFFF) ()) ! 0 = 0x0200
   \<and> fst (rhd2164_sample_all (loopback True) (replicate 64 0xFFFF) ()) ! 32 = 0x0201
   \<and> fst (rhd2164_sample_all (loopback True) (replicate 64 0xFFFF) ()) ! 1 = 0x0301
   \<and> fst (rhd2164_sample_all (loopback True) (replicate 64 0xFFFF) ()) ! 29 = 0x1F01"
proof -
  let ?out = "fst (rhd2164_sample_all (loopback True) (replicate 64 0xFFFF) ())"
  have len: "64 \<le> length (replicate 64 (0xFFFF :: u16))" by simp
  note t = sample_all_remap [OF len, of "loopback True" "()", unfolded Let_def sweep_loopback]
  have a: "?out ! 31 = 0x0001 \<and> ?out ! 63 = 0x0001 \<and> ?out ! 30 = 0x0101"
    using t by simp
  have all: "\<forall>ch. 2 \<le> ch \<and> ch < 32 \<longrightarrow>
      ?out ! (ch - 2) = (if ch = 2 then (push_bit 8 (ucast (ucast (of_nat ch :: u16) :: u8)) OR 1) AND 0xFFFE
                         else push_bit 8 (ucast (ucast (of_nat ch :: u16) :: u8)) OR 1)
      \<and> ?out ! (ch - 2 + 32) = push_bit 8 (ucast (ucast (of_nat ch :: u16) :: u8)) OR 1"
    using t by simp
  have b: "?out ! 0 = 0x0200 \<and> ?out ! 32 = 0x0201" using all [rule_format, of 2] by simp
  have c: "?out ! 1 = 0x0301" using all [rule_format, of 3] by simp
  have d: "?out ! 29 = 0x1F01" using all [rule_format, of 31] by simp
  show ?thesis using len a b c d by simp
qed

lemma reassembled_bytes:
  fixes a b :: u8
  shows "drop_bit 8 (push_bit 8 (ucast a) OR ucast b OR 1 :: u16) = ucast a"
    and "take_bit 8 (push_bit 8 (ucast a) OR ucast b OR 1 :: u16) = ucast b OR 1"
    and "bit (push_bit 8 (ucast a) OR ucast b OR 1 :: u16) 0"
proof -
  show "drop_bit 8 (push_bit 8 (ucast a) OR ucast b OR 1 :: u16) = ucast a"
    by (rule bit_word_eqI) (auto simp add: bit_simps bit_1_iff dest: bit_imp_le_length)
  show "take_bit 8 (push_bit 8 (ucast a) OR ucast b OR 1 :: u16) = ucast b OR 1"
    by (rule bit_word_eqI) (auto simp add: bit_simps bit_1_iff dest: bit_imp_le_length)
  show "bit (push_bit 8 (ucast a) OR ucast b OR 1 :: u16) 0"
    by (simp add: bit_or_iff)
qed

lemma rhd2164_sample_double:
  assumes "double_bits dev"
  shows "rhd2164_sample dev ch rx s =
    ((fst (dev_rw dev [ucast (rhd_duplicate_bits (ucast ch)), 0] rx 2 s))
       [0 := push_bit 8 (ucast (fst (rhd_unsplit_u16
                 (fst (dev_rw dev [ucast (rhd_duplicate_bits (ucast ch)), 0] rx 2 s) ! 0))))
             OR ucast (fst (rhd_unsplit_u16
                 (fst (dev_rw dev [ucast (rhd_duplicate_bits (ucast ch)), 0] rx 2 s) ! 1))) OR 1,
        1 := push_bit 8 (ucast (snd (rhd_unsplit_u16
                 (fst (dev_rw dev [ucast (rhd_duplicate_bits (ucast ch)), 0] rx 2 s) ! 0))))
             OR ucast (snd (rhd_unsplit_u16
                 (fst (dev_rw dev [ucast (rhd_duplicate_bits (ucast ch)), 0] rx 2 s) ! 1))) OR 1],
     snd (dev_rw dev [ucast (rhd_duplicate_bits (ucast ch)), 0] rx 2 s))"
  using assms by (simp add: rhd2164_sample_def Let_def case_prod_beta)

lemma rhd2164_sample_traced:
  "double_bits dev \<Longrightarrow>
   snd (snd (rhd2164_sample (traced dev) ch rx (s, []))) = [[ucast (rhd_duplicate_bits (ucast ch)), 0]]"
  by (simp add: rhd2164_sample_def Let_def case_prod_beta dev_rw_traced)

text \<open>
  C5, amended. In double mode \<open>rhd2164_sample\<close> performs one transfer of two words (the
  bit-duplicated channel and zero) and applies \<open>unsplit\<close> to both received words. Of
  each returned value the high byte comes from the first received word and the low byte
  from the second received word (the \<open>a\<close> streams for the first value, the \<open>b\<close> streams
  for the second), and bit 0 of each returned value is forced to 1.
\<close>

theorem sample_double_reassembly:
  assumes "double_bits dev" and "2 \<le> length rx"
  shows
    "(let tx = [ucast (rhd_duplicate_bits (ucast ch)), 0];
          rxt = fst (dev_rw dev tx rx 2 s);
          r = fst (rhd2164_sample dev ch rx s)
      in snd (rhd2164_sample dev ch rx s) = snd (dev_rw dev tx rx 2 s)
         \<and> snd (snd (rhd2164_sample (traced dev) ch rx (s, []))) = [tx]
         \<and> length r = length rx
         \<and> r ! 0 = push_bit 8 (ucast (fst (rhd_unsplit_u16 (rxt ! 0))))
                     OR ucast (fst (rhd_unsplit_u16 (rxt ! 1))) OR 1
         \<and> r ! 1 = push_bit 8 (ucast (snd (rhd_unsplit_u16 (rxt ! 0))))
                     OR ucast (snd (rhd_unsplit_u16 (rxt ! 1))) OR 1
         \<and> drop_bit 8 (r ! 0) = ucast (fst (rhd_unsplit_u16 (rxt ! 0)))
         \<and> take_bit 8 (r ! 0) = ucast (fst (rhd_unsplit_u16 (rxt ! 1))) OR 1
         \<and> drop_bit 8 (r ! 1) = ucast (snd (rhd_unsplit_u16 (rxt ! 0)))
         \<and> take_bit 8 (r ! 1) = ucast (snd (rhd_unsplit_u16 (rxt ! 1))) OR 1
         \<and> bit (r ! 0) 0 \<and> bit (r ! 1) 0)"
proof -
  let ?tx = "[ucast (rhd_duplicate_bits (ucast ch)), 0] :: u16 list"
  let ?rxt = "fst (dev_rw dev ?tx rx 2 s)"
  let ?r = "fst (rhd2164_sample dev ch rx s)"
  have len: "length ?rxt = length rx" by (rule length_dev_rw)
  have p: "0 < length ?rxt" "1 < length ?rxt" unfolding len using assms(2) by linarith+
  have r0: "?r ! 0 = push_bit 8 (ucast (fst (rhd_unsplit_u16 (?rxt ! 0))))
                     OR ucast (fst (rhd_unsplit_u16 (?rxt ! 1))) OR 1"
    and r1: "?r ! 1 = push_bit 8 (ucast (snd (rhd_unsplit_u16 (?rxt ! 0))))
                     OR ucast (snd (rhd_unsplit_u16 (?rxt ! 1))) OR 1"
    and st: "snd (rhd2164_sample dev ch rx s) = snd (dev_rw dev ?tx rx 2 s)"
    using p by (simp_all add: rhd2164_sample_double [OF assms(1)])
  have tr: "snd (snd (rhd2164_sample (traced dev) ch rx (s, []))) = [?tx]"
    using assms(1) by (rule rhd2164_sample_traced)
  have l: "length ?r = length rx" by (rule length_rhd2164_sample)
  show ?thesis
    unfolding Let_def using st tr l r0 r1 by (simp only: reassembled_bytes simp_thms)
qed

text \<open>
  The theorem at a transport that stores the words \<open>0x0002\<close> and \<open>0x0008\<close>: the \<open>a\<close>
  streams are \<open>1\<close> and \<open>2\<close>, the \<open>b\<close> streams are \<open>0\<close>, and the returned values are
  \<open>0x0103\<close> and \<open>0x0001\<close>.
\<close>

theorem sample_double_reassembly_witness:
  "double_bits (const_dev True [2, 8]) \<and> 2 \<le> length [0, 0 :: u16]
   \<and> fst (dev_rw (const_dev True [2, 8]) [ucast (rhd_duplicate_bits (ucast (5 :: u16))), 0] [0, 0] 2 ())
       = [2, 8]
   \<and> rhd2164_sample (const_dev True [2, 8]) 5 [0, 0] () = ([0x0103, 0x0001], ())"
proof -
  have d: "double_bits (const_dev True [2, 8])" by (simp add: const_dev_def)
  have l: "2 \<le> length [0, 0 :: u16]" by simp
  have rxt: "dev_rw (const_dev True [2, 8]) tx [0, 0] 2 () = ([2, 8], ())" for tx
    by (simp add: dev_rw_def const_dev_def)
  have u: "rhd_unsplit_u16 2 = (1, 0)" "rhd_unsplit_u16 8 = (2, 0)"
    by (simp_all add: rhd_unsplit_u16_def unsplit_step_def shift_arr_def upt8)
  note t = sample_double_reassembly [OF d l, of 5 "()", unfolded Let_def rxt fst_conv snd_conv]
  have "length (fst (rhd2164_sample (const_dev True [2, 8]) 5 [0, 0] ())) = 2"
    "fst (rhd2164_sample (const_dev True [2, 8]) 5 [0, 0] ()) ! 0 = 0x0103"
    "fst (rhd2164_sample (const_dev True [2, 8]) 5 [0, 0] ()) ! 1 = 0x0001"
    using t by (simp_all add: u)
  then have "fst (rhd2164_sample (const_dev True [2, 8]) 5 [0, 0] ()) = [0x0103, 0x0001]"
    by (simp add: list_eq_iff_nth_eq less_Suc_eq numeral_2_eq_2)
  then show ?thesis using d rxt by (simp add: prod_eq_iff)
qed

text \<open>
  C5, as the spec states it: the low byte of a returned value comes from the first
  received word and the high byte from the second. At the transport above the first
  received word is \<open>0x0002\<close> and the second \<open>0x0008\<close>; the low byte of the first
  returned value is not the \<open>a\<close> stream of the first word (with bit 0 set) and its high
  byte is not the \<open>a\<close> stream of the second word.
\<close>

theorem sample_byte_order_counterexample:
  "fst (dev_rw (const_dev True [2, 8]) [ucast (rhd_duplicate_bits (ucast (5 :: u16))), 0] [0, 0] 2 ())
       = [2, 8]
   \<and> take_bit 8 (fst (rhd2164_sample (const_dev True [2, 8]) 5 [0, 0] ()) ! 0)
       \<noteq> ucast (fst (rhd_unsplit_u16 2)) OR 1
   \<and> drop_bit 8 (fst (rhd2164_sample (const_dev True [2, 8]) 5 [0, 0] ()) ! 0)
       \<noteq> ucast (fst (rhd_unsplit_u16 8))"
  by (simp add: rhd2164_sample_def dev_rw_def const_dev_def rhd_unsplit_u16_def unsplit_step_def
      shift_arr_def upt8)

end
